theory Spec2Isabelle
  imports Main "HOL-Library.AList"
begin

section \<open>Python values and the JSON library\<close>

text \<open>
  The script \<^verbatim>\<open>refreshobservations.py\<close> handles JSON documents from the iNaturalist
  service and stores their reshaped form in Hugo markdown files. A JSON value is what
  \<^verbatim>\<open>json.loads\<close> returns: \<^verbatim>\<open>None\<close>, a \<^verbatim>\<open>bool\<close>, an \<^verbatim>\<open>int\<close>, a \<^verbatim>\<open>str\<close>, a \<^verbatim>\<open>list\<close> or a
  \<^verbatim>\<open>dict\<close> with string keys, kept in insertion order as an association list.
  Numbers are Python's unbounded integers; numbers with a fraction or an exponent
  (Python floats) are not represented, and a text holding one is reported as not parseable.
  A \<^verbatim>\<open>str\<close> is a list of characters with code points below 256.
\<close>

datatype json =
    JNull
  | JBool bool
  | JInt int
  | JString string
  | JList "json list"
  | JObject "(string \<times> json) list"

datatype py_error = KeyError | TypeError | IndexError | ValueError

text \<open>Subscription \<^verbatim>\<open>v[key]\<close> with a string key and with an integer index.\<close>

fun getitem_str :: "json \<Rightarrow> string \<Rightarrow> py_error + json" where
  "getitem_str (JObject kvs) k = (case map_of kvs k of None \<Rightarrow> Inl KeyError | Some v \<Rightarrow> Inr v)"
| "getitem_str _ k = Inl TypeError"

definition list_get :: "'a list \<Rightarrow> int \<Rightarrow> py_error + 'a" where
  "list_get xs i =
     (if 0 \<le> i \<and> i < int (length xs) then Inr (xs ! nat i)
      else if i < 0 \<and> - int (length xs) \<le> i then Inr (xs ! nat (int (length xs) + i))
      else Inl IndexError)"

fun getitem_int :: "json \<Rightarrow> int \<Rightarrow> py_error + json" where
  "getitem_int (JList xs) i = list_get xs i"
| "getitem_int (JString s) i = map_sum id (\<lambda>c. JString [c]) (list_get s i)"
| "getitem_int (JObject kvs) i = Inl KeyError"
| "getitem_int _ i = Inl TypeError"

text \<open>Slicing \<^verbatim>\<open>s[i:j]\<close>: negative bounds count from the end, and nothing is ever raised.\<close>

definition py_slice :: "'a list \<Rightarrow> int \<Rightarrow> int \<Rightarrow> 'a list" where
  "py_slice s i j =
     (let n = int (length s);
          lo = (if i < 0 then max 0 (i + n) else min i n);
          hi = (if j < 0 then max 0 (j + n) else min j n)
      in take (nat (hi - lo)) (drop (nat lo) s))"

text \<open>\<^verbatim>\<open>sep.join(parts)\<close>.\<close>

fun join :: "string \<Rightarrow> string list \<Rightarrow> string" where
  "join sep [] = []"
| "join sep [x] = x"
| "join sep (x # y # ys) = x @ sep @ join sep (y # ys)"

subsection \<open>Decimal and hexadecimal digits\<close>

definition digit_char :: "nat \<Rightarrow> char" where
  "digit_char d = char_of (48 + d)"

definition is_digit :: "char \<Rightarrow> bool" where
  "is_digit c = (48 \<le> (of_char c :: nat) \<and> (of_char c :: nat) \<le> 57)"

definition digit_val :: "char \<Rightarrow> nat" where
  "digit_val c = of_char c - 48"

fun nat_digits :: "nat \<Rightarrow> string" where
  "nat_digits n = (if n < 10 then [digit_char n] else nat_digits (n div 10) @ [digit_char (n mod 10)])"

declare nat_digits.simps [simp del]

definition py_str_int :: "int \<Rightarrow> string" where
  "py_str_int n = (if n < 0 then CHR ''-'' # nat_digits (nat (- n)) else nat_digits (nat n))"

definition digits_val :: "string \<Rightarrow> nat" where
  "digits_val ds = foldl (\<lambda>a c. 10 * a + digit_val c) 0 ds"

definition hex_digit :: "nat \<Rightarrow> char" where
  "hex_digit d = char_of (if d < 10 then 48 + d else 87 + d)"

definition hex_val :: "char \<Rightarrow> nat option" where
  "hex_val c =
     (let n = (of_char c :: nat)
      in if 48 \<le> n \<and> n \<le> 57 then Some (n - 48)
         else if 97 \<le> n \<and> n \<le> 102 then Some (n - 87)
         else if 65 \<le> n \<and> n \<le> 70 then Some (n - 55)
         else None)"

definition hex4 :: "char \<Rightarrow> char \<Rightarrow> char \<Rightarrow> char \<Rightarrow> nat option" where
  "hex4 a b c d =
     (case (hex_val a, hex_val b, hex_val c, hex_val d) of
        (Some x3, Some x2, Some x1, Some x0) \<Rightarrow> Some (((x3 * 16 + x2) * 16 + x1) * 16 + x0)
      | _ \<Rightarrow> None)"

subsection \<open>\<^verbatim>\<open>json.dumps\<close> with its default options\<close>

text \<open>
  \<^verbatim>\<open>ensure_ascii\<close> is on: a quote, a backslash and every character outside the range from
  space to tilde is escaped. The separators are \<^verbatim>\<open>", "\<close> and \<^verbatim>\<open>": "\<close>.
\<close>

definition json_escape :: "char \<Rightarrow> string" where
  "json_escape c =
    (if c = CHR 0x22 then [CHR 0x5C, CHR 0x22]
     else if c = CHR 0x5C then [CHR 0x5C, CHR 0x5C]
     else if c = CHR 0x0A then [CHR 0x5C, CHR ''n'']
     else if c = CHR 0x0D then [CHR 0x5C, CHR ''r'']
     else if c = CHR 0x09 then [CHR 0x5C, CHR ''t'']
     else if c = CHR 0x08 then [CHR 0x5C, CHR ''b'']
     else if c = CHR 0x0C then [CHR 0x5C, CHR ''f'']
     else if 0x20 \<le> (of_char c :: nat) \<and> (of_char c :: nat) \<le> 0x7E then [c]
     else [CHR 0x5C, CHR ''u'', CHR ''0'', CHR ''0'',
           hex_digit ((of_char c :: nat) div 16), hex_digit ((of_char c :: nat) mod 16)])"

definition json_quote :: "string \<Rightarrow> string" where
  "json_quote s = CHR 0x22 # concat (map json_escape s) @ [CHR 0x22]"

fun json_dumps :: "json \<Rightarrow> string" where
  "json_dumps JNull = ''null''"
| "json_dumps (JBool b) = (if b then ''true'' else ''false'')"
| "json_dumps (JInt n) = py_str_int n"
| "json_dumps (JString s) = json_quote s"
| "json_dumps (JList xs) = ''['' @ join '', '' (map json_dumps xs) @ '']''"
| "json_dumps (JObject kvs) =
     ''{'' @ join '', '' (map (\<lambda>(k, v). json_quote k @ '': '' @ json_dumps v) kvs) @ ''}''"

subsection \<open>\<^verbatim>\<open>json.loads\<close>\<close>

text \<open>
  A recursive-descent reader of the JSON grammar as Python's decoder accepts it: white
  space between tokens, strict strings (no raw control character), integers without a
  leading zero, and for a repeated key the last value at the first position. The
  recursion carries a bound that starts above the length of the text; each nested value
  and each further element consumes at least one character, so the bound is never what
  stops a parse.
\<close>

definition is_ws :: "char \<Rightarrow> bool" where
  "is_ws c = (c = CHR '' '' \<or> c = CHR 0x09 \<or> c = CHR 0x0A \<or> c = CHR 0x0D)"

definition skip_ws :: "string \<Rightarrow> string" where
  "skip_ws s = dropWhile is_ws s"

definition unescape :: "char \<Rightarrow> char option" where
  "unescape e =
    (if e = CHR 0x22 then Some (CHR 0x22)
     else if e = CHR 0x5C then Some (CHR 0x5C)
     else if e = CHR ''/'' then Some (CHR ''/'')
     else if e = CHR ''b'' then Some (CHR 0x08)
     else if e = CHR ''f'' then Some (CHR 0x0C)
     else if e = CHR ''n'' then Some (CHR 0x0A)
     else if e = CHR ''r'' then Some (CHR 0x0D)
     else if e = CHR ''t'' then Some (CHR 0x09)
     else None)"

definition cons_fst :: "'a \<Rightarrow> ('a list \<times> 'b) option \<Rightarrow> ('a list \<times> 'b) option" where
  "cons_fst x r = map_option (\<lambda>(xs, rest). (x # xs, rest)) r"

text \<open>The characters of a string after its opening quote, up to the closing one.\<close>

fun scan_string :: "string \<Rightarrow> (string \<times> string) option" where
  "scan_string [] = None"
| "scan_string (c # cs) =
    (if c = CHR 0x22 then Some ([], cs)
     else if c = CHR 0x5C then
       (case cs of
          [] \<Rightarrow> None
        | e # es \<Rightarrow>
            if e = CHR ''u'' then
              (case es of
                 a # b # x # d # rest \<Rightarrow>
                   (case hex4 a b x d of
                      None \<Rightarrow> None
                    | Some n \<Rightarrow> if n < 256 then cons_fst (char_of n) (scan_string rest) else None)
               | _ \<Rightarrow> None)
            else (case unescape e of None \<Rightarrow> None | Some ch \<Rightarrow> cons_fst ch (scan_string es)))
     else if (of_char c :: nat) < 0x20 then None
     else cons_fst c (scan_string cs))"

text \<open>
  Python's number pattern: an optional minus, then \<^verbatim>\<open>0\<close> or a digit sequence without a
  leading zero. A fraction or an exponent behind it makes the number a float.
\<close>

definition is_float_tail :: "string \<Rightarrow> bool" where
  "is_float_tail s =
     (case s of
        c # d # r \<Rightarrow>
          if c = CHR ''.'' then is_digit d
          else if c = CHR ''e'' \<or> c = CHR ''E'' then
            (is_digit d \<or> ((d = CHR ''+'' \<or> d = CHR ''-'') \<and> (case r of [] \<Rightarrow> False | x # _ \<Rightarrow> is_digit x)))
          else False
      | _ \<Rightarrow> False)"

definition scan_digits :: "string \<Rightarrow> (nat \<times> string) option" where
  "scan_digits s =
     (case s of
        [] \<Rightarrow> None
      | c # r \<Rightarrow>
          if c = CHR ''0'' then Some (0, r)
          else if is_digit c then Some (digits_val (takeWhile is_digit s), dropWhile is_digit s)
          else None)"

definition scan_number :: "string \<Rightarrow> (json \<times> string) option" where
  "scan_number s =
     (let neg = (case s of [] \<Rightarrow> False | c # _ \<Rightarrow> c = CHR ''-'')
      in case scan_digits (if neg then tl s else s) of
           None \<Rightarrow> None
         | Some (n, rest) \<Rightarrow>
             if is_float_tail rest then None
             else Some (JInt (if neg then - int n else int n), rest))"

definition strip_prefix :: "string \<Rightarrow> string \<Rightarrow> string option" where
  "strip_prefix p s = (if take (length p) s = p then Some (drop (length p) s) else None)"

text \<open>\<^verbatim>\<open>dict(pairs)\<close>: a later value for a key replaces the earlier one in place.\<close>

definition dict_of_pairs :: "(string \<times> json) list \<Rightarrow> (string \<times> json) list" where
  "dict_of_pairs ps = foldl (\<lambda>d (k, v). AList.update k v d) [] ps"

fun parse_value :: "nat \<Rightarrow> string \<Rightarrow> (json \<times> string) option"
  and parse_elems :: "nat \<Rightarrow> string \<Rightarrow> (json list \<times> string) option"
  and parse_members :: "nat \<Rightarrow> string \<Rightarrow> ((string \<times> json) list \<times> string) option"
where
  "parse_value 0 s = None"
| "parse_value (Suc f) s =
    (case s of
       [] \<Rightarrow> None
     | c # r \<Rightarrow>
         if c = CHR 0x22 then map_option (\<lambda>(str, rest). (JString str, rest)) (scan_string r)
         else if c = CHR ''{'' then
           (case skip_ws r of
              [] \<Rightarrow> None
            | d # r' \<Rightarrow>
                if d = CHR ''}'' then Some (JObject [], r')
                else map_option (\<lambda>(ps, rest). (JObject (dict_of_pairs ps), rest))
                       (parse_members f (d # r')))
         else if c = CHR ''['' then
           (case skip_ws r of
              [] \<Rightarrow> None
            | d # r' \<Rightarrow>
                if d = CHR '']'' then Some (JList [], r')
                else map_option (\<lambda>(vs, rest). (JList vs, rest)) (parse_elems f (d # r')))
         else if c = CHR ''n'' then map_option (Pair JNull) (strip_prefix ''null'' s)
         else if c = CHR ''t'' then map_option (Pair (JBool True)) (strip_prefix ''true'' s)
         else if c = CHR ''f'' then map_option (Pair (JBool False)) (strip_prefix ''false'' s)
         else scan_number s)"
| "parse_elems 0 s = None"
| "parse_elems (Suc f) s =
    (case parse_value (Suc f) s of
       None \<Rightarrow> None
     | Some (v, r) \<Rightarrow>
         (case skip_ws r of
            [] \<Rightarrow> None
          | d # r' \<Rightarrow>
              if d = CHR '']'' then Some ([v], r')
              else if d = CHR '','' then cons_fst v (parse_elems f (skip_ws r'))
              else None))"
| "parse_members 0 s = None"
| "parse_members (Suc f) s =
    (case s of
       [] \<Rightarrow> None
     | q # r0 \<Rightarrow>
         if q \<noteq> CHR 0x22 then None
         else
           (case scan_string r0 of
              None \<Rightarrow> None
            | Some (k, r1) \<Rightarrow>
                (case skip_ws r1 of
                   [] \<Rightarrow> None
                 | c # r2 \<Rightarrow>
                     if c \<noteq> CHR '':'' then None
                     else
                       (case parse_value (Suc f) (skip_ws r2) of
                          None \<Rightarrow> None
                        | Some (v, r3) \<Rightarrow>
                            (case skip_ws r3 of
                               [] \<Rightarrow> None
                             | d # r4 \<Rightarrow>
                                 if d = CHR ''}'' then Some ([(k, v)], r4)
                                 else if d = CHR '','' then cons_fst (k, v) (parse_members f (skip_ws r4))
                                 else None)))))"

definition json_loads :: "string \<Rightarrow> json option" where
  "json_loads s =
     (case parse_value (Suc (length s)) (skip_ws s) of
        None \<Rightarrow> None
      | Some (v, rest) \<Rightarrow> if skip_ws rest = [] then Some v else None)"


subsection \<open>Equality, ordering against zero, \<^verbatim>\<open>str\<close> and \<^verbatim>\<open>repr\<close>\<close>

text \<open>
  \<^verbatim>\<open>a == b\<close> on JSON values: a \<^verbatim>\<open>bool\<close> equals the integer 0 or 1, lists are compared
  element by element, and dictionaries are equal when they have the same number of keys
  and every key of the first has an equal value in the second, whatever the order.
\<close>

fun py_eq :: "json \<Rightarrow> json \<Rightarrow> bool" where
  "py_eq JNull JNull = True"
| "py_eq (JBool a) (JBool b) = (a = b)"
| "py_eq (JBool a) (JInt n) = ((if a then 1 else 0) = n)"
| "py_eq (JInt n) (JBool a) = (n = (if a then 1 else 0))"
| "py_eq (JInt m) (JInt n) = (m = n)"
| "py_eq (JString s) (JString t) = (s = t)"
| "py_eq (JList xs) (JList ys) = list_all2 py_eq xs ys"
| "py_eq (JObject a) (JObject b) =
     (length a = length b \<and>
      list_all (\<lambda>(k, v). case map_of b k of None \<Rightarrow> False | Some v' \<Rightarrow> py_eq v v') a)"
| "py_eq _ _ = False"

text \<open>\<^verbatim>\<open>v > 0\<close>: defined for integers and booleans, a \<^verbatim>\<open>TypeError\<close> for every other value.\<close>

fun py_gt_zero :: "json \<Rightarrow> py_error + bool" where
  "py_gt_zero (JInt n) = Inr (0 < n)"
| "py_gt_zero (JBool b) = Inr b"
| "py_gt_zero _ = Inl TypeError"

definition py_printable :: "char \<Rightarrow> bool" where
  "py_printable c =
     (let n = (of_char c :: nat) in (0x20 \<le> n \<and> n \<le> 0x7E) \<or> (0xA1 \<le> n \<and> n \<noteq> 0xAD))"

definition repr_char :: "char \<Rightarrow> char \<Rightarrow> string" where
  "repr_char q c =
     (if c = q \<or> c = CHR 0x5C then [CHR 0x5C, c]
      else if c = CHR 0x09 then [CHR 0x5C, CHR ''t'']
      else if c = CHR 0x0A then [CHR 0x5C, CHR ''n'']
      else if c = CHR 0x0D then [CHR 0x5C, CHR ''r'']
      else if py_printable c then [c]
      else [CHR 0x5C, CHR ''x'',
            hex_digit ((of_char c :: nat) div 16), hex_digit ((of_char c :: nat) mod 16)])"

definition py_repr_str :: "string \<Rightarrow> string" where
  "py_repr_str s =
     (let q = (if CHR 0x27 \<in> set s \<and> CHR 0x22 \<notin> set s then CHR 0x22 else CHR 0x27)
      in q # concat (map (repr_char q) s) @ [q])"

fun py_repr :: "json \<Rightarrow> string" where
  "py_repr JNull = ''None''"
| "py_repr (JBool b) = (if b then ''True'' else ''False'')"
| "py_repr (JInt n) = py_str_int n"
| "py_repr (JString s) = py_repr_str s"
| "py_repr (JList xs) = ''['' @ join '', '' (map py_repr xs) @ '']''"
| "py_repr (JObject kvs) =
     ''{'' @ join '', '' (map (\<lambda>(k, v). py_repr_str k @ '': '' @ py_repr v) kvs) @ ''}''"

definition py_str :: "json \<Rightarrow> string" where
  "py_str v = (case v of JString s \<Rightarrow> s | _ \<Rightarrow> py_repr v)"

section \<open>The markdown file format\<close>

definition CONTENT_LOCATION :: string where
  "CONTENT_LOCATION = ''./''"

definition USER_ID :: string where
  "USER_ID = ''brandonrozek''"

text \<open>
  \<^verbatim>\<open>s.find(p, start)\<close>: the lowest index from \<^verbatim>\<open>start\<close> on at which \<^verbatim>\<open>p\<close> occurs in
  \<^verbatim>\<open>s\<close>; \<open>None\<close> stands for Python's \<^verbatim>\<open>-1\<close>.
\<close>

definition str_find :: "string \<Rightarrow> string \<Rightarrow> nat \<Rightarrow> nat option" where
  "str_find s p start =
     List.find (\<lambda>i. take (length p) (drop i s) = p) [start ..< Suc (length s)]"

lemma find_Some_member: "List.find P xs = Some x \<Longrightarrow> x \<in> set xs \<and> P x"
  by (induction xs) (auto split: if_splits)

lemma str_find_bounds: "str_find s p start = Some j \<Longrightarrow> start \<le> j \<and> j \<le> length s"
  unfolding str_find_def by (drule find_Some_member) (auto simp del: upt_Suc)

text \<open>
  The generator \<^verbatim>\<open>findall(p, s)\<close>, as the list of what it yields: the loop runs while the
  last search found an index, and searches again one position further.
\<close>

function findall_from :: "string \<Rightarrow> string \<Rightarrow> nat option \<Rightarrow> nat list" where
  "findall_from p s None = []"
| "findall_from p s (Some i) = i # findall_from p s (str_find s p (i + 1))"
  by pat_completeness auto
termination
proof (relation "measure (\<lambda>(p, s, r). case r of None \<Rightarrow> 0 | Some i \<Rightarrow> Suc (Suc (length s) - i))")
  show "wf (measure (\<lambda>(p, s, r). case r of None \<Rightarrow> 0 | Some i \<Rightarrow> Suc (Suc (length s) - i)))"
    by simp
next
  fix p s :: string and i :: nat
  show "((p, s, str_find s p (i + 1)), (p, s, Some i))
      \<in> measure (\<lambda>(p, s, r). case r of None \<Rightarrow> 0 | Some i \<Rightarrow> Suc (Suc (length s) - i))"
  proof (cases "str_find s p (i + 1)")
    case None
    then show ?thesis by simp
  next
    case (Some j)
    then have "i + 1 \<le> j \<and> j \<le> length s" by (rule str_find_bounds)
    then have "Suc (length s) - j < Suc (length s) - i" by arith
    then show ?thesis using Some by simp
  qed
qed

definition findall :: "string \<Rightarrow> string \<Rightarrow> nat list" where
  "findall p s = findall_from p s (str_find s p 0)"

definition hugo_markdown_to_json ::
  "string \<Rightarrow> py_error + ((string \<times> json) list option \<times> string) option" where
  "hugo_markdown_to_json markdown_contents =
     (let front_matter_indices = findall ''---'' markdown_contents
      in if length front_matter_indices < 2 then Inr None
         else
           (case list_get front_matter_indices 0 of
              Inl e \<Rightarrow> Inl e
            | Inr i0 \<Rightarrow>
                (case list_get front_matter_indices 1 of
                   Inl e \<Rightarrow> Inl e
                 | Inr i1 \<Rightarrow>
                     (let front_matter = py_slice markdown_contents (int i0 + 3) (int i1);
                          json_contents =
                            (case json_loads front_matter of
                               Some (JObject d) \<Rightarrow> Some d
                             | _ \<Rightarrow> None);
                          html_contents = py_slice markdown_contents (int i1 + 19) (- 17)
                      in Inr (Some (json_contents, html_contents))))))"

definition create_markdown_str :: "(string \<times> json) list \<Rightarrow> string \<Rightarrow> string" where
  "create_markdown_str frontmatter content =
     ''---\<newline>'' @
     json_dumps (JObject frontmatter) @ ''\<newline>'' @
     ''---\<newline>'' @
     ''{{< unsafe >}}\<newline>'' @
     content @ ''\<newline>'' @
     ''{{< /unsafe >}}\<newline>''"

definition file_from_id :: "string \<Rightarrow> string" where
  "file_from_id idnum = CONTENT_LOCATION @ ''/'' @ idnum @ ''.md''"

section \<open>The world the script runs in\<close>

text \<open>
  The script talks to the iNaturalist service and to the files of the content directory.
  The service is a finite script of answers, one taken by each call of \<^verbatim>\<open>urlopen\<close>:
  either the call raises (\<open>Unreachable\<close>) or it returns a body, given as what
  \<^verbatim>\<open>json.loads(response.read())\<close> makes of it (\<open>None\<close> when reading or decoding raises).
  When the script of answers is used up the service never answers: no timeout is set,
  so the run hangs. The requested URLs and the printed lines are recorded in order.

  The content directory maps the path given to \<^verbatim>\<open>open\<close> to the text of the file. Opening
  a path for reading may raise (\<open>read_fails\<close>). Opening it for writing truncates the
  file; the write then succeeds, or the \<^verbatim>\<open>open\<close> itself raises and the file is untouched,
  or the write raises after some characters of the new text reached the file.
\<close>

datatype response = Unreachable | Body "json option"

datatype write_result = WriteOk | OpenFails | WriteFails nat

record world =
  files :: "(string \<times> string) list"
  read_fails :: "string \<Rightarrow> bool"
  write_result_of :: "string \<Rightarrow> write_result"
  responses :: "response list"
  requests :: "string list"
  stdout :: "string list"

datatype stop = SysExit int | Uncaught py_error | Hang

definition print_line :: "string \<Rightarrow> world \<Rightarrow> world" where
  "print_line l w = w\<lparr>stdout := stdout w @ [l]\<rparr>"

definition urlopen :: "string \<Rightarrow> world \<Rightarrow> response option \<times> world" where
  "urlopen url w =
     (case responses w of
        [] \<Rightarrow> (None, w\<lparr>requests := requests w @ [url]\<rparr>)
      | r # rs \<Rightarrow> (Some r, w\<lparr>responses := rs, requests := requests w @ [url]\<rparr>))"

text \<open>A world with an empty content directory, no faults and a service that never answers.\<close>

definition quiet_world :: world where
  "quiet_world = \<lparr>files = [], read_fails = (\<lambda>p. False), write_result_of = (\<lambda>p. WriteOk),
     responses = [], requests = [], stdout = []\<rparr>"

text \<open>
  Reading in text mode translates every \<^verbatim>\<open>\r\n\<close> and every lone \<^verbatim>\<open>\r\<close> to \<^verbatim>\<open>\n\<close>
  (universal newlines); writing on a POSIX system stores the text as it is.
\<close>

fun universal_newlines :: "string \<Rightarrow> string" where
  "universal_newlines [] = []"
| "universal_newlines [c] = (if c = CHR 0x0D then [CHR 0x0A] else [c])"
| "universal_newlines (c # d # r) =
     (if c = CHR 0x0D then
        (if d = CHR 0x0A then CHR 0x0A # universal_newlines r
         else CHR 0x0A # universal_newlines (d # r))
      else c # universal_newlines (d # r))"

definition open_read :: "string \<Rightarrow> world \<Rightarrow> string option" where
  "open_read path w =
     (if read_fails w path then None else map_option universal_newlines (map_of (files w) path))"

definition open_write :: "string \<Rightarrow> string \<Rightarrow> world \<Rightarrow> bool \<times> world" where
  "open_write path new_text w =
     (case write_result_of w path of
        WriteOk \<Rightarrow> (True, w\<lparr>files := AList.update path new_text (files w)\<rparr>)
      | OpenFails \<Rightarrow> (False, w)
      | WriteFails n \<Rightarrow> (False, w\<lparr>files := AList.update path (take n new_text) (files w)\<rparr>))"

text \<open>
  \<^verbatim>\<open>glob(CONTENT_LOCATION + "/*.md")\<close> and \<^verbatim>\<open>Path(fname).stem\<close>: the names in the content
  directory that end in \<^verbatim>\<open>.md\<close> and do not start with a dot, without that suffix.
\<close>

definition saved_stem :: "string \<Rightarrow> string option" where
  "saved_stem path =
     (let pre = CONTENT_LOCATION @ ''/''; name = drop (length pre) path
      in if take (length pre) path = pre \<and> CHR ''/'' \<notin> set name \<and> name \<noteq> []
            \<and> hd name \<noteq> CHR ''.'' \<and> drop (length name - 3) name = ''.md''
         then Some (take (length name - 3) name) else None)"

definition saved_ids_of :: "world \<Rightarrow> string list" where
  "saved_ids_of w = List.map_filter saved_stem (map fst (files w))"

section \<open>Listing the observation ids\<close>

definition MIN_OBS_ID :: json where
  "MIN_OBS_ID = JInt (- 1)"

fun map_err :: "('a \<Rightarrow> 'e + 'b) \<Rightarrow> 'a list \<Rightarrow> 'e + 'b list" where
  "map_err g [] = Inr []"
| "map_err g (x # xs) =
     (case g x of
        Inl e \<Rightarrow> Inl e
      | Inr y \<Rightarrow> (case map_err g xs of Inl e \<Rightarrow> Inl e | Inr ys \<Rightarrow> Inr (y # ys)))"

definition listing_url :: "string \<Rightarrow> string" where
  "listing_url id_below =
     ''https://api.inaturalist.org/v1/observations?order=desc&order_by=created_at&only_id=true&user_id=''
       @ USER_ID @ id_below"

text \<open>
  The \<^verbatim>\<open>while\<close> loop of \<^verbatim>\<open>retrieve_obs_ids_from_server\<close>, with the global cursor and the
  list collected so far as arguments. The test \<^verbatim>\<open>server_data is None\<close> of the source
  looks at the collected list, which is never \<^verbatim>\<open>None\<close>, so it has no branch here; a body
  that cannot be read leaves \<^verbatim>\<open>server_data_part\<close> at \<^verbatim>\<open>None\<close> and fails the list test.
\<close>

function retrieve_obs_ids_loop :: "json \<Rightarrow> json list \<Rightarrow> world \<Rightarrow> (stop + json list) \<times> world" where
  "retrieve_obs_ids_loop min_obs_id server_data w =
     (case py_gt_zero min_obs_id of
        Inl e \<Rightarrow> (Inl (Uncaught e), w)
      | Inr positive \<Rightarrow>
          (case urlopen (listing_url (if positive then ''&id_below='' @ py_str min_obs_id else [])) w of
             (None, w1) \<Rightarrow> (Inl Hang, w1)
           | (Some Unreachable, w1) \<Rightarrow>
               (Inl (SysExit (- 1)), print_line ''Unable to grab observations from iNaturalist.'' w1)
           | (Some (Body body), w1) \<Rightarrow>
               (case (case body of None \<Rightarrow> Inl ValueError | Some doc \<Rightarrow> getitem_str doc ''results'') of
                  Inl e \<Rightarrow>
                    (Inl (SysExit (- 1)),
                     print_line ''Unexpected JSON response, should be of form list.''
                       (print_line ''Malformed JSON response from server.'' w1))
                | Inr (JList server_data_part) \<Rightarrow>
                    if length server_data_part = 0 then (Inr server_data, w1)
                    else
                      (case map_err (\<lambda>d. getitem_str d ''id'') server_data_part of
                         Inl e \<Rightarrow> (Inl (Uncaught e), w1)
                       | Inr ids \<Rightarrow> retrieve_obs_ids_loop (last ids) (server_data @ ids) w1)
                | Inr _ \<Rightarrow>
                    (Inl (SysExit (- 1)),
                     print_line ''Unexpected JSON response, should be of form list.'' w1))))"
  by pat_completeness auto
termination
  by (relation "measure (\<lambda>(m, sd, w). length (responses w))")
     (auto simp add: urlopen_def split: list.splits)

declare retrieve_obs_ids_loop.simps [simp del]

definition retrieve_obs_ids_from_server :: "world \<Rightarrow> (stop + json list) \<times> world" where
  "retrieve_obs_ids_from_server w =
     (case retrieve_obs_ids_loop MIN_OBS_ID [] w of
        (Inl s, w1) \<Rightarrow> (Inl s, w1)
      | (Inr server_data, w1) \<Rightarrow>
          (Inr server_data,
           print_line (''Parsed a total of '' @ nat_digits (length server_data) @ '' ids from server'') w1))"

section \<open>Fetching and reshaping the observations\<close>

record obs_data =
  obs_id :: string
  metadata :: "(string \<times> json) list"
  content :: string

definition desired_fields :: "string list" where
  "desired_fields =
     [''quality_grade'', ''identifications_most_agree'',
      ''species_guess'', ''identifications_most_disagree'',
      ''captive'', ''project_ids'',
      ''community_taxon_id'', ''geojson'',
      ''owners_identification_from_vision'',
      ''identifications_count'', ''obscured'',
      ''num_identification_agreements'',
      ''num_identification_disagreements'',
      ''place_guess'', ''photos'']"

text \<open>The \<^verbatim>\<open>for key in desired_fields\<close> loop: the first missing key raises.\<close>

fun copy_fields :: "json \<Rightarrow> string list \<Rightarrow> (string \<times> json) list \<Rightarrow> py_error + (string \<times> json) list" where
  "copy_fields obs_json [] md = Inr md"
| "copy_fields obs_json (key # keys) md =
     (case getitem_str obs_json key of
        Inl e \<Rightarrow> Inl e
      | Inr v \<Rightarrow> copy_fields obs_json keys (AList.update key v md))"

definition reformat_obs :: "json \<Rightarrow> json \<Rightarrow> py_error + obs_data" where
  "reformat_obs obsid obs_json =
     (case getitem_str obs_json ''uri'' of
        Inl e \<Rightarrow> Inl e
      | Inr uri \<Rightarrow>
     (case getitem_str obs_json ''time_observed_at'' of
        Inl e \<Rightarrow> Inl e
      | Inr date \<Rightarrow>
     (case getitem_str obs_json ''taxon'' of
        Inl e \<Rightarrow> Inl e
      | Inr taxon \<Rightarrow>
     (case getitem_str taxon ''name'' of
        Inl e \<Rightarrow> Inl e
      | Inr name \<Rightarrow>
     (case getitem_str taxon ''preferred_common_name'' of
        Inl e \<Rightarrow> Inl e
      | Inr common_name \<Rightarrow>
     (case copy_fields obs_json desired_fields
             (AList.update ''taxon'' (JObject [(''name'', name), (''common_name'', common_name)])
               (AList.update ''date'' date
                 (AList.update ''syndication'' uri []))) of
        Inl e \<Rightarrow> Inl e
      | Inr md \<Rightarrow> Inr \<lparr>obs_id = py_str obsid, metadata = md, content = []\<rparr>))))))"

definition detail_url :: "json \<Rightarrow> string" where
  "detail_url id_num = ''https://api.inaturalist.org/v1/observations/'' @ py_str id_num"

text \<open>\<^verbatim>\<open>json.loads(response.read())['results'][0]\<close>, every exception of which is caught.\<close>

definition first_result :: "json option \<Rightarrow> py_error + json" where
  "first_result body =
     (case body of
        None \<Rightarrow> Inl ValueError
      | Some doc \<Rightarrow>
          (case getitem_str doc ''results'' of
             Inl e \<Rightarrow> Inl e
           | Inr results \<Rightarrow> getitem_int results 0))"

fun retrieve_data_loop :: "json list \<Rightarrow> obs_data list \<Rightarrow> world \<Rightarrow> (stop + obs_data list) \<times> world" where
  "retrieve_data_loop [] server_data w = (Inr server_data, w)"
| "retrieve_data_loop (id_num # server_ids) server_data w =
     (case urlopen (detail_url id_num) w of
        (None, w1) \<Rightarrow> (Inl Hang, w1)
      | (Some Unreachable, w1) \<Rightarrow>
          retrieve_data_loop server_ids server_data
            (print_line (''Unable to grab observation '' @ py_str id_num @ '' from iNaturalist.'') w1)
      | (Some (Body body), w1) \<Rightarrow>
          (case first_result body of
             Inl e \<Rightarrow>
               retrieve_data_loop server_ids server_data
                 (print_line (''Malformed JSON response for observation '' @ py_str id_num @ ''.'') w1)
           | Inr server_data_part \<Rightarrow>
               (case reformat_obs id_num server_data_part of
                  Inl e \<Rightarrow> (Inl (Uncaught e), w1)
                | Inr obs \<Rightarrow> retrieve_data_loop server_ids (server_data @ [obs]) w1)))"

definition retrieve_data_from_server :: "world \<Rightarrow> (stop + obs_data list) \<times> world" where
  "retrieve_data_from_server w =
     (case retrieve_obs_ids_from_server w of
        (Inl s, w1) \<Rightarrow> (Inl s, w1)
      | (Inr server_ids, w1) \<Rightarrow>
          (case retrieve_data_loop server_ids [] w1 of
             (Inl s, w2) \<Rightarrow> (Inl s, w2)
           | (Inr server_data, w2) \<Rightarrow>
               (Inr server_data,
                print_line (''Successfully obtained '' @ nat_digits (length server_data)
                              @ '' observations from the server.'') w2)))"

section \<open>Reading, writing and reconciling the local files\<close>

text \<open>
  \<^verbatim>\<open>read_hugo_markdown\<close> unpacks the result of \<^verbatim>\<open>hugo_markdown_to_json\<close> inside its
  \<^verbatim>\<open>try\<close>: when that result is \<^verbatim>\<open>None\<close> the unpacking raises, and so does a failing
  \<^verbatim>\<open>open\<close>; both are caught and \<^verbatim>\<open>None\<close> is returned.
\<close>

definition read_hugo_markdown :: "string \<Rightarrow> world \<Rightarrow> ((string \<times> json) list option \<times> string) option" where
  "read_hugo_markdown idnum w =
     (case open_read (file_from_id idnum) w of
        None \<Rightarrow> None
      | Some markdown_contents \<Rightarrow>
          (case hugo_markdown_to_json markdown_contents of
             Inl e \<Rightarrow> None
           | Inr None \<Rightarrow> None
           | Inr (Some (frontmatter, contents)) \<Rightarrow> Some (frontmatter, contents)))"

definition write_markdown :: "string \<Rightarrow> (string \<times> json) list \<Rightarrow> string \<Rightarrow> world \<Rightarrow> world" where
  "write_markdown id_num frontmatter contents w =
     (case open_write (file_from_id id_num) (create_markdown_str frontmatter contents) w of
        (True, w1) \<Rightarrow> w1
      | (False, w1) \<Rightarrow> print_line (''Failed to write '' @ id_num) w1)"

text \<open>
  One turn of the loop at the end of the script. The result of \<^verbatim>\<open>read_hugo_markdown\<close> is
  unpacked into two names outside any \<^verbatim>\<open>try\<close>: on \<^verbatim>\<open>None\<close> this raises a \<^verbatim>\<open>TypeError\<close>
  that nothing catches.
\<close>

definition reconcile_step :: "string list \<Rightarrow> obs_data \<Rightarrow> world \<Rightarrow> (py_error + unit) \<times> world" where
  "reconcile_step saved_ids data w =
     (let id_num = obs_id data
      in if id_num \<in> set saved_ids then
           (case read_hugo_markdown id_num w of
              None \<Rightarrow> (Inl TypeError, w)
            | Some (saved_fm, saved_content) \<Rightarrow>
                (case saved_fm of
                   None \<Rightarrow> (Inr (), print_line (''Unable to read saved data id '' @ id_num) w)
                 | Some fm \<Rightarrow>
                     if \<not> py_eq (JObject fm) (JObject (metadata data)) then
                       (Inr (),
                        write_markdown id_num (metadata data) (content data)
                          (print_line (''Updating id '' @ id_num) w))
                     else (Inr (), w)))
         else
           (Inr (),
            write_markdown id_num (metadata data) (content data)
              (print_line (''Creating id '' @ id_num) w)))"

fun reconcile :: "string list \<Rightarrow> obs_data list \<Rightarrow> world \<Rightarrow> (py_error + unit) \<times> world" where
  "reconcile saved_ids [] w = (Inr (), w)"
| "reconcile saved_ids (data # server_data) w =
     (case reconcile_step saved_ids data w of
        (Inl e, w1) \<Rightarrow> (Inl e, w1)
      | (Inr u, w1) \<Rightarrow> reconcile saved_ids server_data w1)"

text \<open>
  The script as a whole: the saved ids are read once, before anything is fetched. An
  uncaught exception ends the process with status 1, \<^verbatim>\<open>sys.exit(-1)\<close> with status 255, a
  normal end with status 0; a run that hangs has no status.
\<close>

definition main :: "world \<Rightarrow> (stop + unit) \<times> world" where
  "main w =
     (let saved_ids = saved_ids_of w
      in case retrieve_data_from_server w of
           (Inl s, w1) \<Rightarrow> (Inl s, w1)
         | (Inr server_data, w1) \<Rightarrow>
             (case reconcile saved_ids server_data w1 of
                (Inl e, w2) \<Rightarrow> (Inl (Uncaught e), w2)
              | (Inr u, w2) \<Rightarrow> (Inr (), print_line ''Completed'' w2)))"

fun exit_status :: "stop + unit \<Rightarrow> int option" where
  "exit_status (Inr u) = Some 0"
| "exit_status (Inl (SysExit n)) = Some (n mod 256)"
| "exit_status (Inl (Uncaught e)) = Some 1"
| "exit_status (Inl Hang) = None"

section \<open>Properties of the JSON library model\<close>

subsection \<open>Integers written in decimal are read back\<close>
























lemma update_fresh: "k \<notin> fst ` set acc \<Longrightarrow> AList.update k v acc = acc @ [(k, v)]"
  by (induction acc) auto










declare parse_value.simps [simp del] parse_elems.simps [simp del] parse_members.simps [simp del]












section \<open>Properties of the markdown file format\<close>





























section \<open>Writing a record and reading it back\<close>





section \<open>Reading the frontmatter never raises\<close>







section \<open>A write that fails\<close>





section \<open>The decision taken for one record\<close>







section \<open>The listing loop, one request at a time\<close>

definition listing_page :: "response \<Rightarrow> json list option" where
  "listing_page r =
     (case r of
        Body (Some doc) \<Rightarrow>
          (case getitem_str doc ''results'' of Inr (JList p) \<Rightarrow> Some p | _ \<Rightarrow> None)
      | _ \<Rightarrow> None)"

definition page_ids :: "json list \<Rightarrow> py_error + json list" where
  "page_ids p = map_err (\<lambda>d. getitem_str d ''id'') p"

definition cursor_text :: "json \<Rightarrow> bool \<Rightarrow> string" where
  "cursor_text m positive = (if positive then ''&id_below='' @ py_str m else [])"

definition after_request :: "string \<Rightarrow> response list \<Rightarrow> world \<Rightarrow> world" where
  "after_request url rest w = w\<lparr>responses := rest, requests := requests w @ [url]\<rparr>"

definition same_store :: "world \<Rightarrow> world \<Rightarrow> bool" where
  "same_store w w' =
     (files w' = files w \<and> read_fails w' = read_fails w \<and> write_result_of w' = write_result_of w)"

lemma map_err_length: "map_err g xs = Inr ys \<Longrightarrow> length ys = length xs"
  by (induction xs arbitrary: ys) (auto split: sum.splits)

lemma loop_type_error:
  "py_gt_zero m = Inl e \<Longrightarrow> retrieve_obs_ids_loop m acc w = (Inl (Uncaught e), w)"
  by (subst retrieve_obs_ids_loop.simps) simp

lemma loop_hang:
  "py_gt_zero m = Inr pos \<Longrightarrow> responses w = [] \<Longrightarrow>
     retrieve_obs_ids_loop m acc w
       = (Inl Hang, w\<lparr>requests := requests w @ [listing_url (cursor_text m pos)]\<rparr>)"
  by (subst retrieve_obs_ids_loop.simps) (simp add: urlopen_def cursor_text_def)

lemma loop_bad_page:
  assumes "py_gt_zero m = Inr pos" and "responses w = r # rest" and "listing_page r = None"
  shows "\<exists>out. retrieve_obs_ids_loop m acc w
           = (Inl (SysExit (- 1)),
              (after_request (listing_url (cursor_text m pos)) rest w)\<lparr>stdout := stdout w @ out\<rparr>)"
proof -
  let ?w1 = "after_request (listing_url (cursor_text m pos)) rest w"
  have "retrieve_obs_ids_loop m acc w = (Inl (SysExit (- 1)), ?w1\<lparr>stdout := stdout w @ [''Unable to grab observations from iNaturalist.'']\<rparr>)
      \<or> retrieve_obs_ids_loop m acc w = (Inl (SysExit (- 1)), ?w1\<lparr>stdout := stdout w @ [''Malformed JSON response from server.'', ''Unexpected JSON response, should be of form list.'']\<rparr>)
      \<or> retrieve_obs_ids_loop m acc w = (Inl (SysExit (- 1)), ?w1\<lparr>stdout := stdout w @ [''Unexpected JSON response, should be of form list.'']\<rparr>)"
    using assms
    by (subst (1 2 3) retrieve_obs_ids_loop.simps)
       (auto simp add: urlopen_def cursor_text_def listing_page_def after_request_def print_line_def
          split: response.splits option.splits sum.splits json.splits)
  then show ?thesis by blast
qed

lemma loop_empty_page:
  assumes "py_gt_zero m = Inr pos" and "responses w = r # rest" and "listing_page r = Some []"
  shows "retrieve_obs_ids_loop m acc w = (Inr acc, after_request (listing_url (cursor_text m pos)) rest w)"
  using assms
  by (subst retrieve_obs_ids_loop.simps)
     (auto simp add: urlopen_def cursor_text_def listing_page_def after_request_def
        split: response.splits option.splits sum.splits json.splits)

lemma loop_bad_element:
  assumes "py_gt_zero m = Inr pos" and "responses w = r # rest" and "listing_page r = Some p"
    and "p \<noteq> []" and "page_ids p = Inl e"
  shows "retrieve_obs_ids_loop m acc w
           = (Inl (Uncaught e), after_request (listing_url (cursor_text m pos)) rest w)"
  using assms
  by (subst retrieve_obs_ids_loop.simps)
     (auto simp add: urlopen_def cursor_text_def listing_page_def page_ids_def after_request_def
        split: response.splits option.splits sum.splits json.splits)

lemma loop_next_page:
  assumes "py_gt_zero m = Inr pos" and "responses w = r # rest" and "listing_page r = Some p"
    and "p \<noteq> []" and "page_ids p = Inr ids"
  shows "retrieve_obs_ids_loop m acc w
           = retrieve_obs_ids_loop (last ids) (acc @ ids)
               (after_request (listing_url (cursor_text m pos)) rest w)"
  using assms
  by (subst retrieve_obs_ids_loop.simps)
     (auto simp add: urlopen_def cursor_text_def listing_page_def page_ids_def after_request_def
        split: response.splits option.splits sum.splits json.splits)

definition listing_urls :: "string list \<Rightarrow> bool" where
  "listing_urls urls = list_all (\<lambda>u. take (length (listing_url [])) u = listing_url []) urls"

lemma listing_url_prefix: "take (length (listing_url [])) (listing_url c) = listing_url []"
  by (simp add: listing_url_def)

lemma loop_frame:
  "same_store w (snd (retrieve_obs_ids_loop m acc w))
   \<and> (\<exists>urls. requests (snd (retrieve_obs_ids_loop m acc w)) = requests w @ urls \<and> listing_urls urls)"
proof (induction "responses w" arbitrary: m acc w)
  case Nil
  show ?case
  proof (cases "py_gt_zero m")
    case (Inl e)
    then show ?thesis by (simp add: loop_type_error same_store_def listing_urls_def)
  next
    case (Inr pos)
    then show ?thesis using Nil [symmetric]
      by (simp add: loop_hang same_store_def listing_urls_def listing_url_prefix)
  qed
next
  case (Cons r rest)
  show ?case
  proof (cases "py_gt_zero m")
    case (Inl e)
    then show ?thesis by (simp add: loop_type_error same_store_def listing_urls_def)
  next
    case (Inr pos)
    let ?w1 = "after_request (listing_url (cursor_text m pos)) rest w"
    have rs: "responses w = r # rest" using Cons.hyps(2) by simp
    have w1: "same_store w ?w1" "requests ?w1 = requests w @ [listing_url (cursor_text m pos)]"
      "rest = responses ?w1"
      by (simp_all add: same_store_def after_request_def)
    show ?thesis
    proof (cases "listing_page r")
      case None
      obtain out where "retrieve_obs_ids_loop m acc w
          = (Inl (SysExit (- 1)), ?w1\<lparr>stdout := stdout w @ out\<rparr>)"
        using loop_bad_page [OF Inr rs None] by blast
      then show ?thesis using w1
        by (simp add: same_store_def listing_urls_def listing_url_prefix)
    next
      case (Some p)
      show ?thesis
      proof (cases "p = []")
        case True
        then show ?thesis using loop_empty_page [OF Inr rs, of acc] Some w1
          by (simp add: same_store_def listing_urls_def listing_url_prefix)
      next
        case False
        show ?thesis
        proof (cases "page_ids p")
          case (Inl e)
          then show ?thesis using loop_bad_element [OF Inr rs Some False, of e acc] w1
            by (simp add: same_store_def listing_urls_def listing_url_prefix)
        next
          case ids: (Inr ids)
          have step: "retrieve_obs_ids_loop m acc w = retrieve_obs_ids_loop (last ids) (acc @ ids) ?w1"
            by (rule loop_next_page [OF Inr rs Some False ids])
          from Cons.hyps(1) [OF w1(3), of "last ids" "acc @ ids"]
          obtain urls where
            "same_store ?w1 (snd (retrieve_obs_ids_loop (last ids) (acc @ ids) ?w1))"
            "requests (snd (retrieve_obs_ids_loop (last ids) (acc @ ids) ?w1)) = requests ?w1 @ urls"
            "listing_urls urls"
            by blast
          then show ?thesis using w1(1,2) unfolding step
            by (intro conjI exI [of _ "listing_url (cursor_text m pos) # urls"])
               (simp_all add: same_store_def listing_urls_def listing_url_prefix)
        qed
      qed
    qed
  qed
qed

lemma loop_returns:
  "retrieve_obs_ids_loop m acc w = (Inr ids, w') \<Longrightarrow>
     \<exists>used. responses w = used @ responses w' \<and> used \<noteq> []
       \<and> listing_page (last used) = Some []
       \<and> (\<forall>r \<in> set (butlast used). \<exists>p. listing_page r = Some p \<and> p \<noteq> [])"
proof (induction "responses w" arbitrary: m acc w)
  case Nil
  show ?case
  proof (cases "py_gt_zero m")
    case (Inl e)
    then show ?thesis using Nil.prems by (simp add: loop_type_error)
  next
    case (Inr pos)
    then show ?thesis using Nil.prems Nil.hyps [symmetric] by (simp add: loop_hang)
  qed
next
  case (Cons r rest)
  show ?case
  proof (cases "py_gt_zero m")
    case (Inl e)
    then show ?thesis using Cons.prems by (simp add: loop_type_error)
  next
    case (Inr pos)
    let ?w1 = "after_request (listing_url (cursor_text m pos)) rest w"
    have rs: "responses w = r # rest" using Cons.hyps(2) by simp
    have w1: "rest = responses ?w1" by (simp add: after_request_def)
    show ?thesis
    proof (cases "listing_page r")
      case None
      then show ?thesis using loop_bad_page [OF Inr rs None, of acc] Cons.prems by auto
    next
      case (Some p)
      show ?thesis
      proof (cases "p = []")
        case True
        then have "w' = ?w1" using loop_empty_page [OF Inr rs, of acc] Some Cons.prems by simp
        then show ?thesis using rs Some True
          by (intro exI [of _ "[r]"]) (simp add: after_request_def)
      next
        case False
        show ?thesis
        proof (cases "page_ids p")
          case (Inl e)
          then show ?thesis using loop_bad_element [OF Inr rs Some False, of e acc] Cons.prems by simp
        next
          case pids: (Inr pids)
          have "retrieve_obs_ids_loop (last pids) (acc @ pids) ?w1 = (Inr ids, w')"
            using loop_next_page [OF Inr rs Some False pids, of acc] Cons.prems by simp
          from Cons.hyps(1) [OF w1 this]
          obtain used where used: "responses ?w1 = used @ responses w'" "used \<noteq> []"
            "listing_page (last used) = Some []"
            "\<forall>r \<in> set (butlast used). \<exists>p. listing_page r = Some p \<and> p \<noteq> []"
            by blast
          show ?thesis
            using used rs Some False w1
            by (intro exI [of _ "r # used"]) (auto simp add: after_request_def)
        qed
      qed
    qed
  qed
qed

section \<open>Pagination of the listing stage\<close>

definition int_page :: "response \<Rightarrow> int list \<Rightarrow> bool" where
  "int_page r ns =
     (ns \<noteq> [] \<and> (case listing_page r of Some p \<Rightarrow> page_ids p = Inr (map JInt ns) | None \<Rightarrow> False))"

definition id_below_of :: "int \<Rightarrow> string" where
  "id_below_of n = (if 0 < n then ''&id_below='' @ py_str_int n else [])"

lemma cursor_text_int: "cursor_text (JInt n) (0 < n) = id_below_of n"
  by (simp add: cursor_text_def id_below_of_def py_str_def)

lemma loop_int_page:
  assumes "responses w = r # rest" and "int_page r ns"
  shows "retrieve_obs_ids_loop (JInt n0) acc w
           = retrieve_obs_ids_loop (JInt (last ns)) (acc @ map JInt ns)
               (after_request (listing_url (id_below_of n0)) rest w)"
proof -
  obtain p where p: "listing_page r = Some p" "page_ids p = Inr (map JInt ns)" and ns: "ns \<noteq> []"
    using assms(2) by (auto simp add: int_page_def split: option.splits)
  have "length (map JInt ns) = length p" using p(2) unfolding page_ids_def by (rule map_err_length)
  then have "p \<noteq> []" using ns by auto
  then show ?thesis
    using loop_next_page [OF _ assms(1) p(1) _ p(2), of "JInt n0" "0 < n0" acc] ns
    by (simp add: cursor_text_int last_map)
qed

lemma loop_pages:
  assumes "list_all2 int_page rs nss" and "listing_page r_end = Some []"
    and "responses w = rs @ r_end # rest"
  shows "retrieve_obs_ids_loop (JInt n0) acc w
           = (Inr (acc @ map JInt (concat nss)),
              w\<lparr>responses := rest,
                requests := requests w @ map (\<lambda>n. listing_url (id_below_of n)) (n0 # map last nss)\<rparr>)"
  using assms(1,3)
proof (induction rs nss arbitrary: n0 acc w rule: list_all2_induct)
  case Nil
  then show ?case
    using loop_empty_page [OF _ _ assms(2), of "JInt n0" "0 < n0" w rest acc]
    by (simp add: cursor_text_int after_request_def)
next
  case (Cons r rs ns nss)
  let ?w1 = "after_request (listing_url (id_below_of n0)) (rs @ r_end # rest) w"
  have "retrieve_obs_ids_loop (JInt n0) acc w
      = retrieve_obs_ids_loop (JInt (last ns)) (acc @ map JInt ns) ?w1"
    using loop_int_page [OF _ Cons.hyps(1)] Cons.prems by simp
  moreover have "responses ?w1 = rs @ r_end # rest" by (simp add: after_request_def)
  ultimately show ?case
    using Cons.IH [of ?w1 "last ns" "acc @ map JInt ns"]
    by (simp add: after_request_def)
qed

lemma loop_fails:
  assumes "list_all2 int_page rs nss" and "listing_page r_bad = None"
    and "responses w = rs @ r_bad # rest"
  shows "\<exists>out. retrieve_obs_ids_loop (JInt n0) acc w
           = (Inl (SysExit (- 1)),
              w\<lparr>responses := rest,
                requests := requests w @ map (\<lambda>n. listing_url (id_below_of n)) (n0 # map last nss),
                stdout := stdout w @ out\<rparr>)"
  using assms(1,3)
proof (induction rs nss arbitrary: n0 acc w rule: list_all2_induct)
  case Nil
  then show ?case
    using loop_bad_page [OF _ _ assms(2), of "JInt n0" "0 < n0" w rest acc]
    by (simp add: cursor_text_int after_request_def)
next
  case (Cons r rs ns nss)
  let ?w1 = "after_request (listing_url (id_below_of n0)) (rs @ r_bad # rest) w"
  have "retrieve_obs_ids_loop (JInt n0) acc w
      = retrieve_obs_ids_loop (JInt (last ns)) (acc @ map JInt ns) ?w1"
    using loop_int_page [OF _ Cons.hyps(1)] Cons.prems by simp
  moreover have "responses ?w1 = rs @ r_bad # rest" by (simp add: after_request_def)
  ultimately show ?case
    using Cons.IH [of ?w1 "last ns" "acc @ map JInt ns"]
    by (simp add: after_request_def)
qed

lemma id_below_of_initial: "id_below_of (- 1) = []"
  by (simp add: id_below_of_def)

text \<open>
  Claim C2, amended. In the listing stage the first request carries no cursor. When the
  service answers with non-empty pages of integer ids and then with an empty page, every
  request after the first carries \<^verbatim>\<open>id_below\<close> equal to the last id of the page before it
  when that id is positive, and no cursor when that id is zero or negative; the loop
  returns at the empty page, and its result is the concatenation, in order, of the ids
  of all pages. Conversely, whenever the loop returns a list, the last answer it took was
  an empty page and every answer before it a non-empty one.
\<close>

theorem listing_pagination:
  assumes "list_all2 int_page rs nss" and "listing_page r_end = Some []"
    and "responses w = rs @ r_end # rest"
  shows "(\<exists>w'. retrieve_obs_ids_from_server w = (Inr (map JInt (concat nss)), w')
            \<and> requests w' = requests w @ listing_url [] # map (\<lambda>ns. listing_url (id_below_of (last ns))) nss
            \<and> responses w' = rest)
       \<and> (\<forall>ids w'. retrieve_obs_ids_from_server w0 = (Inr ids, w') \<longrightarrow>
            (\<exists>used. responses w0 = used @ responses w' \<and> used \<noteq> []
               \<and> listing_page (last used) = Some []
               \<and> (\<forall>r \<in> set (butlast used). \<exists>p. listing_page r = Some p \<and> p \<noteq> [])))"
proof
  show "\<exists>w'. retrieve_obs_ids_from_server w = (Inr (map JInt (concat nss)), w')
            \<and> requests w' = requests w @ listing_url [] # map (\<lambda>ns. listing_url (id_below_of (last ns))) nss
            \<and> responses w' = rest"
    using loop_pages [OF assms, of "- 1" "[]"]
    by (simp add: retrieve_obs_ids_from_server_def MIN_OBS_ID_def id_below_of_initial
        print_line_def comp_def)
next
  show "\<forall>ids w'. retrieve_obs_ids_from_server w0 = (Inr ids, w') \<longrightarrow>
            (\<exists>used. responses w0 = used @ responses w' \<and> used \<noteq> []
               \<and> listing_page (last used) = Some []
               \<and> (\<forall>r \<in> set (butlast used). \<exists>p. listing_page r = Some p \<and> p \<noteq> []))"
  proof (intro allI impI)
    fix ids w' assume a: "retrieve_obs_ids_from_server w0 = (Inr ids, w')"
    obtain res w1 where l: "retrieve_obs_ids_loop MIN_OBS_ID [] w0 = (res, w1)"
      by (cases "retrieve_obs_ids_loop MIN_OBS_ID [] w0")
    from a l have "res = Inr ids" and w': "responses w' = responses w1"
      by (auto simp add: retrieve_obs_ids_from_server_def print_line_def split: sum.splits)
    then have "retrieve_obs_ids_loop MIN_OBS_ID [] w0 = (Inr ids, w1)" using l by simp
    from loop_returns [OF this] show "\<exists>used. responses w0 = used @ responses w' \<and> used \<noteq> []
               \<and> listing_page (last used) = Some []
               \<and> (\<forall>r \<in> set (butlast used). \<exists>p. listing_page r = Some p \<and> p \<noteq> [])"
      using w' by simp
  qed
qed


definition page_of :: "int list \<Rightarrow> response" where
  "page_of ns = Body (Some (JObject [(''total_results'', JInt 3),
                                      (''results'', JList (map (\<lambda>n. JObject [(''id'', JInt n)]) ns))]))"

definition paged_world :: world where
  "paged_world = quiet_world\<lparr>responses := [page_of [7, 5], page_of [3], page_of [], Unreachable]\<rparr>"

lemma int_page_page_of: "ns \<noteq> [] \<Longrightarrow> int_page (page_of ns) ns"
proof -
  have "map_err (\<lambda>d. getitem_str d ''id'') (map (\<lambda>n. JObject [(''id'', JInt n)]) ns) = Inr (map JInt ns)"
    by (induction ns) simp_all
  then show "ns \<noteq> [] \<Longrightarrow> int_page (page_of ns) ns"
    by (simp add: int_page_def listing_page_def page_of_def page_ids_def)
qed

theorem listing_pagination_witness:
  "fst (retrieve_obs_ids_from_server paged_world) = Inr [JInt 7, JInt 5, JInt 3]
   \<and> requests (snd (retrieve_obs_ids_from_server paged_world))
       = [listing_url [], listing_url ''&id_below=5'', listing_url ''&id_below=3'']
   \<and> responses (snd (retrieve_obs_ids_from_server paged_world)) = [Unreachable]"
proof -
  have 1: "list_all2 int_page [page_of [7, 5], page_of [3]] [[7, 5], [3]]"
    by (simp add: int_page_page_of)
  have 2: "listing_page (page_of []) = Some []"
    by (simp add: listing_page_def page_of_def)
  have 3: "responses paged_world = [page_of [7, 5], page_of [3]] @ page_of [] # [Unreachable]"
    by (simp add: paged_world_def quiet_world_def)
  have 4: "id_below_of 5 = ''&id_below=5''" "id_below_of 3 = ''&id_below=3''"
    by code_simp+
  have 5: "requests paged_world = []" by (simp add: paged_world_def quiet_world_def)
  from listing_pagination [OF 1 2 3, THEN conjunct1] 4 5 show ?thesis by auto
qed

definition zero_id_world :: world where
  "zero_id_world = quiet_world\<lparr>responses := [page_of [0], page_of []]\<rparr>"

text \<open>
  Claim C2 as stated fails: the cursor is sent only under the guard \<^verbatim>\<open>MIN_OBS_ID > 0\<close>.
  After a page whose last id is 0, the next request carries no cursor instead of
  \<^verbatim>\<open>id_below=0\<close>.
\<close>

theorem no_cursor_after_id_zero:
  "fst (retrieve_obs_ids_from_server zero_id_world) = Inr [JInt 0]
   \<and> requests (snd (retrieve_obs_ids_from_server zero_id_world)) = [listing_url [], listing_url []]
   \<and> listing_url [] \<noteq> listing_url (''&id_below='' @ py_str (JInt 0))"
  by code_simp

section \<open>A listing request that fails\<close>

lemma main_listing_stop:
  "retrieve_obs_ids_from_server w = (Inl s, w1) \<Longrightarrow> main w = (Inl s, w1)"
  by (simp add: main_def retrieve_data_from_server_def)

lemma listing_frame:
  "same_store w (snd (retrieve_obs_ids_from_server w))
   \<and> (\<exists>urls. requests (snd (retrieve_obs_ids_from_server w)) = requests w @ urls \<and> listing_urls urls)"
proof -
  obtain res w1 where l: "retrieve_obs_ids_loop MIN_OBS_ID [] w = (res, w1)"
    by (cases "retrieve_obs_ids_loop MIN_OBS_ID [] w")
  from loop_frame [of w MIN_OBS_ID "[]"] l
  have "same_store w w1 \<and> (\<exists>urls. requests w1 = requests w @ urls \<and> listing_urls urls)" by simp
  then show ?thesis using l
    by (cases res) (auto simp add: retrieve_obs_ids_from_server_def print_line_def same_store_def)
qed

text \<open>
  Claim C6. When a listing request fails, or its answer cannot be decoded, has no
  \<^verbatim>\<open>results\<close> or has \<^verbatim>\<open>results\<close> that are not a list, the process ends with
  \<^verbatim>\<open>sys.exit(-1)\<close>, a nonzero status (255), after the listing requests made so far
  and nothing else: no detail request was sent, no later answer was taken and the files
  are those of the start. More generally, whenever the listing stage stops the run, only
  listing URLs were requested and the content directory is untouched.
\<close>

theorem listing_failure_is_fatal:
  assumes "list_all2 int_page rs nss" and "listing_page r_bad = None"
    and "responses w = rs @ r_bad # rest"
  shows "fst (main w) = Inl (SysExit (- 1))
       \<and> exit_status (fst (main w)) = Some 255
       \<and> files (snd (main w)) = files w
       \<and> requests (snd (main w))
           = requests w @ listing_url [] # map (\<lambda>ns. listing_url (id_below_of (last ns))) nss
       \<and> responses (snd (main w)) = rest
       \<and> (\<forall>s. fst (retrieve_obs_ids_from_server w0) = Inl s \<longrightarrow>
            fst (main w0) = Inl s \<and> same_store w0 (snd (main w0))
            \<and> (\<exists>urls. requests (snd (main w0)) = requests w0 @ urls \<and> listing_urls urls))"
proof -
  obtain out where "retrieve_obs_ids_loop MIN_OBS_ID [] w
      = (Inl (SysExit (- 1)),
         w\<lparr>responses := rest,
           requests := requests w @ map (\<lambda>n. listing_url (id_below_of n)) (- 1 # map last nss),
           stdout := stdout w @ out\<rparr>)"
    using loop_fails [OF assms, of "- 1" "[]"] unfolding MIN_OBS_ID_def by blast
  then have "main w
      = (Inl (SysExit (- 1)),
         w\<lparr>responses := rest,
           requests := requests w @ map (\<lambda>n. listing_url (id_below_of n)) (- 1 # map last nss),
           stdout := stdout w @ out\<rparr>)"
    by (intro main_listing_stop) (simp add: retrieve_obs_ids_from_server_def)
  then have first: "fst (main w) = Inl (SysExit (- 1))
       \<and> exit_status (fst (main w)) = Some 255
       \<and> files (snd (main w)) = files w
       \<and> requests (snd (main w))
           = requests w @ listing_url [] # map (\<lambda>ns. listing_url (id_below_of (last ns))) nss
       \<and> responses (snd (main w)) = rest"
    by (simp add: id_below_of_initial comp_def)
  have second: "fst (main w0) = Inl s \<and> same_store w0 (snd (main w0))
            \<and> (\<exists>urls. requests (snd (main w0)) = requests w0 @ urls \<and> listing_urls urls)"
    if "fst (retrieve_obs_ids_from_server w0) = Inl s" for s
  proof -
    have "retrieve_obs_ids_from_server w0 = (Inl s, snd (retrieve_obs_ids_from_server w0))"
      using that by (metis prod.collapse)
    then have "main w0 = (Inl s, snd (retrieve_obs_ids_from_server w0))"
      by (rule main_listing_stop)
    then show ?thesis using listing_frame [of w0] by simp
  qed
  from first second show ?thesis by blast
qed

definition broken_listing_world :: world where
  "broken_listing_world =
     quiet_world\<lparr>files := [(''.//5.md'', ''kept'')],
                 responses := [page_of [7, 5], Body None, page_of []]\<rparr>"

theorem listing_failure_is_fatal_witness:
  "fst (main broken_listing_world) = Inl (SysExit (- 1))
   \<and> exit_status (fst (main broken_listing_world)) = Some 255
   \<and> files (snd (main broken_listing_world)) = [(''.//5.md'', ''kept'')]
   \<and> requests (snd (main broken_listing_world)) = [listing_url [], listing_url ''&id_below=5'']
   \<and> responses (snd (main broken_listing_world)) = [page_of []]"
proof -
  have 1: "list_all2 int_page [page_of [7, 5]] [[7, 5]]"
    by (simp add: int_page_page_of)
  have 2: "listing_page (Body None) = None"
    by (simp add: listing_page_def)
  have 3: "responses broken_listing_world = [page_of [7, 5]] @ Body None # [page_of []]"
    by (simp add: broken_listing_world_def quiet_world_def)
  have 4: "id_below_of 5 = ''&id_below=5''"
    by code_simp
  have 5: "requests broken_listing_world = []" "files broken_listing_world = [(''.//5.md'', ''kept'')]"
    by (simp_all add: broken_listing_world_def quiet_world_def)
  from listing_failure_is_fatal [OF 1 2 3] 4 5 show ?thesis by simp
qed

section \<open>The detail stage, one observation at a time\<close>

definition required_present :: "json \<Rightarrow> bool" where
  "required_present doc =
     (list_all (\<lambda>k. \<not> isl (getitem_str doc k)) ([''uri'', ''time_observed_at'', ''taxon''] @ desired_fields)
      \<and> (case getitem_str doc ''taxon'' of
            Inr taxon \<Rightarrow> \<not> isl (getitem_str taxon ''name'')
                         \<and> \<not> isl (getitem_str taxon ''preferred_common_name'')
          | Inl e \<Rightarrow> False))"

definition detail_doc :: "response \<Rightarrow> json option" where
  "detail_doc r =
     (case r of
        Unreachable \<Rightarrow> None
      | Body body \<Rightarrow> (case first_result body of Inl e \<Rightarrow> None | Inr doc \<Rightarrow> Some doc))"

lemma copy_fields_raises:
  "isl (copy_fields doc keys md) \<longleftrightarrow> (\<exists>k \<in> set keys. isl (getitem_str doc k))"
  by (induction keys arbitrary: md) (auto split: sum.splits)

lemma copy_fields_keys:
  "copy_fields doc keys md = Inr md' \<Longrightarrow> distinct keys \<Longrightarrow> set keys \<inter> fst ` set md = {}
     \<Longrightarrow> map fst md' = map fst md @ keys"
proof (induction keys arbitrary: md)
  case Nil
  then show ?case by simp
next
  case (Cons k keys)
  from Cons.prems(1) obtain v where v: "getitem_str doc k = Inr v"
    and rest: "copy_fields doc keys (AList.update k v md) = Inr md'"
    by (auto split: sum.splits)
  have fresh: "k \<notin> fst ` set md" using Cons.prems(3) by auto
  have upd: "AList.update k v md = md @ [(k, v)]" using fresh by (rule update_fresh)
  have "set keys \<inter> fst ` set (md @ [(k, v)]) = {}" using Cons.prems(2,3) by auto
  from Cons.IH [OF rest [unfolded upd] _ this] Cons.prems(2) show ?case by simp
qed

lemma distinct_desired_fields: "distinct desired_fields"
  by (simp add: desired_fields_def)

lemma reformat_obs_raises_iff: "isl (reformat_obs obsid doc) \<longleftrightarrow> \<not> required_present doc"
proof -
  have cf: "\<And>md. isl (copy_fields doc desired_fields md)
      \<longleftrightarrow> \<not> list_all (\<lambda>k. \<not> isl (getitem_str doc k)) desired_fields"
    by (simp add: copy_fields_raises list_all_iff)
  show ?thesis
    unfolding reformat_obs_def required_present_def
    by (auto simp add: cf split: sum.splits) (metis cf isl_def sum.disc(2))+
qed


lemma reformat_obs_ok:
  assumes "required_present doc"
  shows "\<exists>md. reformat_obs obsid doc = Inr \<lparr>obs_id = py_str obsid, metadata = md, content = []\<rparr>
           \<and> map fst md = [''syndication'', ''date'', ''taxon''] @ desired_fields"
proof -
  have "\<not> isl (reformat_obs obsid doc)" using assms by (simp add: reformat_obs_raises_iff)
  then obtain ob where ob: "reformat_obs obsid doc = Inr ob" by (cases "reformat_obs obsid doc") auto
  then obtain uri date name common_name md where
    md: "copy_fields doc desired_fields
           (AList.update ''taxon'' (JObject [(''name'', name), (''common_name'', common_name)])
             (AList.update ''date'' date (AList.update ''syndication'' uri []))) = Inr md"
    and obeq: "ob = \<lparr>obs_id = py_str obsid, metadata = md, content = []\<rparr>"
    unfolding reformat_obs_def by (auto split: sum.splits)
  have "map fst md
      = map fst (AList.update ''taxon'' (JObject [(''name'', name), (''common_name'', common_name)])
             (AList.update ''date'' date (AList.update ''syndication'' uri []))) @ desired_fields"
    using md distinct_desired_fields
    by (rule copy_fields_keys) (simp add: desired_fields_def)
  then show ?thesis using ob obeq by simp
qed

lemma detail_hang:
  "responses w = [] \<Longrightarrow>
     retrieve_data_loop (i # ids) acc w = (Inl Hang, w\<lparr>requests := requests w @ [detail_url i]\<rparr>)"
  by (simp add: urlopen_def)

lemma detail_skip:
  assumes "responses w = r # rest" and "detail_doc r = None"
  shows "\<exists>line. line \<in> {''Unable to grab observation '' @ py_str i @ '' from iNaturalist.'',
                         ''Malformed JSON response for observation '' @ py_str i @ ''.''}
           \<and> retrieve_data_loop (i # ids) acc w
               = retrieve_data_loop ids acc
                   ((after_request (detail_url i) rest w)\<lparr>stdout := stdout w @ [line]\<rparr>)"
  using assms
  by (cases r)
     (auto simp add: urlopen_def detail_doc_def after_request_def print_line_def split: sum.splits)

lemma detail_good:
  assumes "responses w = r # rest" and "detail_doc r = Some doc" and "reformat_obs i doc = Inr ob"
  shows "retrieve_data_loop (i # ids) acc w
           = retrieve_data_loop ids (acc @ [ob]) (after_request (detail_url i) rest w)"
  using assms
  by (cases r)
     (auto simp add: urlopen_def detail_doc_def after_request_def split: sum.splits)

lemma detail_crash:
  assumes "responses w = r # rest" and "detail_doc r = Some doc" and "reformat_obs i doc = Inl e"
  shows "retrieve_data_loop (i # ids) acc w
           = (Inl (Uncaught e), after_request (detail_url i) rest w)"
  using assms
  by (cases r)
     (auto simp add: urlopen_def detail_doc_def after_request_def split: sum.splits)

lemma detail_done: "retrieve_data_loop [] acc w = (Inr acc, w)"
  by simp

declare retrieve_data_loop.simps [simp del]

lemma detail_frame: "same_store w (snd (retrieve_data_loop ids acc w))"
proof (induction ids arbitrary: acc w)
  case Nil
  show ?case by (simp add: detail_done same_store_def)
next
  case (Cons i ids)
  show ?case
  proof (cases "responses w")
    case Nil
    then show ?thesis by (simp add: detail_hang same_store_def)
  next
    case rs: (Cons r rest)
    show ?thesis
    proof (cases "detail_doc r")
      case None
      obtain line where "retrieve_data_loop (i # ids) acc w
          = retrieve_data_loop ids acc ((after_request (detail_url i) rest w)\<lparr>stdout := stdout w @ [line]\<rparr>)"
        using detail_skip [OF rs None] by blast
      then show ?thesis
        using Cons.IH [where acc = acc and w = "(after_request (detail_url i) rest w)\<lparr>stdout := stdout w @ [line]\<rparr>"]
        by (simp add: same_store_def after_request_def)
    next
      case (Some doc)
      show ?thesis
      proof (cases "reformat_obs i doc")
        case (Inl e)
        then show ?thesis using detail_crash [OF rs Some Inl]
          by (simp add: same_store_def after_request_def)
      next
        case (Inr ob)
        then show ?thesis
          using detail_good [OF rs Some Inr, of ids acc]
            Cons.IH [where acc = "acc @ [ob]" and w = "after_request (detail_url i) rest w"]
          by (simp add: same_store_def after_request_def)
      qed
    qed
  qed
qed

lemma detail_crashes:
  assumes "length rs = length ids" and "responses w = rs @ rest"
    and "\<exists>r \<in> set rs. \<exists>doc. detail_doc r = Some doc \<and> \<not> required_present doc"
  shows "\<exists>e. fst (retrieve_data_loop ids acc w) = Inl (Uncaught e)"
  using assms
proof (induction ids arbitrary: rs acc w)
  case Nil
  then show ?case by simp
next
  case (Cons i ids)
  from Cons.prems(1) obtain r rs' where rs: "rs = r # rs'" "length rs' = length ids"
    by (cases rs) auto
  have resp: "responses w = r # (rs' @ rest)" using Cons.prems(2) rs by simp
  show ?case
  proof (cases "detail_doc r")
    case None
    obtain line where step: "retrieve_data_loop (i # ids) acc w
        = retrieve_data_loop ids acc
            ((after_request (detail_url i) (rs' @ rest) w)\<lparr>stdout := stdout w @ [line]\<rparr>)"
      using detail_skip [OF resp None] by blast
    have "\<exists>r \<in> set rs'. \<exists>doc. detail_doc r = Some doc \<and> \<not> required_present doc"
      using Cons.prems(3) rs None by auto
    from Cons.IH [OF rs(2) _ this, where w = "(after_request (detail_url i) (rs' @ rest) w)\<lparr>stdout := stdout w @ [line]\<rparr>" and acc = acc]
    show ?thesis unfolding step by (simp add: after_request_def)
  next
    case (Some doc)
    show ?thesis
    proof (cases "reformat_obs i doc")
      case (Inl e)
      then show ?thesis using detail_crash [OF resp Some Inl] by simp
    next
      case (Inr ob)
      then have "required_present doc"
        using reformat_obs_raises_iff [of i doc] by simp
      then have "\<exists>r \<in> set rs'. \<exists>doc. detail_doc r = Some doc \<and> \<not> required_present doc"
        using Cons.prems(3) rs Some by auto
      from Cons.IH [OF rs(2) _ this, where w = "after_request (detail_url i) (rs' @ rest) w" and acc = "acc @ [ob]"]
      show ?thesis using detail_good [OF resp Some Inr, of ids acc] by (simp add: after_request_def)
    qed
  qed
qed

section \<open>A detail document that lacks a field\<close>

definition field_absent :: "(string \<times> json) list \<Rightarrow> bool" where
  "field_absent kvs =
     (list_ex (\<lambda>k. map_of kvs k = None) ([''uri'', ''time_observed_at'', ''taxon''] @ desired_fields)
      \<or> (case map_of kvs ''taxon'' of
            Some (JObject taxon) \<Rightarrow>
              map_of taxon ''name'' = None \<or> map_of taxon ''preferred_common_name'' = None
          | _ \<Rightarrow> False))"

lemma field_absent_not_present: "field_absent kvs \<Longrightarrow> \<not> required_present (JObject kvs)"
proof -
  assume "field_absent kvs"
  then consider k where "k \<in> set ([''uri'', ''time_observed_at'', ''taxon''] @ desired_fields)" "map_of kvs k = None"
    | taxon where "map_of kvs ''taxon'' = Some (JObject taxon)"
        "map_of taxon ''name'' = None \<or> map_of taxon ''preferred_common_name'' = None"
    unfolding field_absent_def list_ex_iff
    by (auto split: option.splits json.splits)
  then show ?thesis
  proof cases
    case 1
    then have "isl (getitem_str (JObject kvs) k)" by simp
    with 1(1) show ?thesis unfolding required_present_def list_all_iff by blast
  next
    case 2
    then show ?thesis unfolding required_present_def by auto
  qed
qed

lemma main_fetch_stop:
  assumes "retrieve_obs_ids_from_server w = (Inr ids, w1)"
    and "fst (retrieve_data_loop ids [] w1) = Inl s"
  shows "main w = (Inl s, snd (retrieve_data_loop ids [] w1))"
proof -
  obtain w2 where "retrieve_data_loop ids [] w1 = (Inl s, w2)"
    using assms(2) by (cases "retrieve_data_loop ids [] w1") simp
  then show ?thesis using assms(1)
    by (simp add: main_def retrieve_data_from_server_def)
qed

lemma same_store_trans: "same_store a b \<Longrightarrow> same_store b c \<Longrightarrow> same_store a c"
  by (simp add: same_store_def)

text \<open>
  Claim C3. When a fetched detail document lacks one of the fields that the reshaping
  reads (\<^verbatim>\<open>uri\<close>, \<^verbatim>\<open>time_observed_at\<close>, \<^verbatim>\<open>taxon\<close> with its \<^verbatim>\<open>name\<close> and
  \<^verbatim>\<open>preferred_common_name\<close>, and the fifteen desired fields), \<^verbatim>\<open>reformat_obs\<close> raises.
  Nothing catches the exception: the whole run ends with an uncaught exception, exit
  status 1, before the reconciliation loop starts, so that no file is written; the
  record is not merely skipped.
\<close>

theorem missing_field_aborts_run:
  assumes "retrieve_obs_ids_from_server w = (Inr ids, w1)"
    and "responses w1 = rs @ rest" and "length rs = length ids"
    and "r \<in> set rs" and "detail_doc r = Some (JObject kvs)" and "field_absent kvs"
  shows "isl (reformat_obs obsid (JObject kvs))
       \<and> (\<exists>e. fst (main w) = Inl (Uncaught e))
       \<and> exit_status (fst (main w)) = Some 1
       \<and> files (snd (main w)) = files w"
proof -
  have np: "\<not> required_present (JObject kvs)" using assms(6) by (rule field_absent_not_present)
  then have "\<exists>r \<in> set rs. \<exists>doc. detail_doc r = Some doc \<and> \<not> required_present doc"
    using assms(4,5) by blast
  from detail_crashes [OF assms(3,2) this, of "[]"]
  obtain e where e: "fst (retrieve_data_loop ids [] w1) = Inl (Uncaught e)" by blast
  have m: "main w = (Inl (Uncaught e), snd (retrieve_data_loop ids [] w1))"
    using assms(1) e by (rule main_fetch_stop)
  have "same_store w w1" using listing_frame [of w] assms(1) by simp
  then have "same_store w (snd (retrieve_data_loop ids [] w1))"
    using detail_frame [of w1 ids "[]"] by (rule same_store_trans)
  then show ?thesis using m np by (simp add: same_store_def reformat_obs_raises_iff)
qed

definition incomplete_doc_world :: world where
  "incomplete_doc_world =
     quiet_world\<lparr>files := [(''.//123.md'', ''kept'')],
                 responses := [page_of [123], page_of [],
                               Body (Some (JObject [(''results'', JList [JObject [(''uri'', JString ''u'')]])]))]\<rparr>"

theorem missing_field_aborts_run_witness:
  "isl (reformat_obs (JInt 123) (JObject [(''uri'', JString ''u'')]))
   \<and> (\<exists>e. fst (main incomplete_doc_world) = Inl (Uncaught e))
   \<and> exit_status (fst (main incomplete_doc_world)) = Some 1
   \<and> files (snd (main incomplete_doc_world)) = [(''.//123.md'', ''kept'')]"
proof -
  let ?r = "Body (Some (JObject [(''results'', JList [JObject [(''uri'', JString ''u'')]])]))"
  have 0: "list_all2 int_page [page_of [123]] [[123]]" by (simp add: int_page_page_of)
  have e: "listing_page (page_of []) = Some []" by (simp add: listing_page_def page_of_def)
  have rs: "responses incomplete_doc_world = [page_of [123]] @ page_of [] # [?r]"
    by (simp add: incomplete_doc_world_def quiet_world_def)
  from listing_pagination [OF 0 e rs, THEN conjunct1]
  obtain w1 where 1: "retrieve_obs_ids_from_server incomplete_doc_world = (Inr [JInt 123], w1)"
    and 2: "responses w1 = [?r] @ []"
    by auto
  have 3: "length [?r] = length [JInt 123]" by simp
  have 4: "?r \<in> set [?r]" by simp
  have 5: "detail_doc ?r = Some (JObject [(''uri'', JString ''u'')])"
    by (simp add: detail_doc_def first_result_def list_get_def)
  have 6: "field_absent [(''uri'', JString ''u'')]"
    by (simp add: field_absent_def)
  have 7: "files incomplete_doc_world = [(''.//123.md'', ''kept'')]"
    by (simp add: incomplete_doc_world_def quiet_world_def)
  from missing_field_aborts_run [OF 1 2 3 4 5 6, of "JInt 123"] 7 show ?thesis by simp
qed

section \<open>Runs in which no detail document is incomplete\<close>

definition ok_response :: "response \<Rightarrow> bool" where
  "ok_response r = (case detail_doc r of None \<Rightarrow> True | Some doc \<Rightarrow> required_present doc)"

definition fetched :: "json \<times> response \<Rightarrow> obs_data option" where
  "fetched ir =
     (case detail_doc (snd ir) of
        None \<Rightarrow> None
      | Some doc \<Rightarrow> (case reformat_obs (fst ir) doc of Inl e \<Rightarrow> None | Inr ob \<Rightarrow> Some ob))"

definition skip_lines :: "json \<Rightarrow> string set" where
  "skip_lines i = {''Unable to grab observation '' @ py_str i @ '' from iNaturalist.'',
                   ''Malformed JSON response for observation '' @ py_str i @ ''.''}"

lemma detail_loop_all:
  assumes "length rs = length ids" and "responses w = rs @ rest" and "list_all ok_response rs"
  shows "\<exists>out. retrieve_data_loop ids acc w
            = (Inr (acc @ List.map_filter fetched (zip ids rs)),
               w\<lparr>responses := rest, requests := requests w @ map detail_url ids,
                 stdout := stdout w @ out\<rparr>)
          \<and> (\<forall>(i, r) \<in> set (zip ids rs). detail_doc r = None \<longrightarrow> skip_lines i \<inter> set out \<noteq> {})"
  using assms
proof (induction ids arbitrary: rs acc w)
  case Nil
  then have "w = w\<lparr>responses := rest, stdout := stdout w @ []\<rparr>" by simp
  then show ?case using Nil
    by (intro exI [of _ "[]"]) (simp add: detail_done map_filter_simps)
next
  case (Cons i ids)
  from Cons.prems(1) obtain r rs' where rs: "rs = r # rs'" "length rs' = length ids"
    by (cases rs) auto
  have resp: "responses w = r # (rs' @ rest)" using Cons.prems(2) rs by simp
  have oks: "list_all ok_response rs'" and ok: "ok_response r" using Cons.prems(3) rs by simp_all
  show ?case
  proof (cases "detail_doc r")
    case None
    obtain line where line: "line \<in> skip_lines i"
      and step: "retrieve_data_loop (i # ids) acc w
        = retrieve_data_loop ids acc
            ((after_request (detail_url i) (rs' @ rest) w)\<lparr>stdout := stdout w @ [line]\<rparr>)"
      using detail_skip [OF resp None, of i ids acc] unfolding skip_lines_def by blast
    let ?w1 = "(after_request (detail_url i) (rs' @ rest) w)\<lparr>stdout := stdout w @ [line]\<rparr>"
    have "responses ?w1 = rs' @ rest" by (simp add: after_request_def)
    from Cons.IH [OF rs(2) this oks, of acc]
    obtain out where out: "retrieve_data_loop ids acc ?w1
            = (Inr (acc @ List.map_filter fetched (zip ids rs')),
               ?w1\<lparr>responses := rest, requests := requests ?w1 @ map detail_url ids,
                 stdout := stdout ?w1 @ out\<rparr>)"
      and lines: "\<forall>(i, r) \<in> set (zip ids rs'). detail_doc r = None \<longrightarrow> skip_lines i \<inter> set out \<noteq> {}"
      by blast
    have f: "fetched (i, r) = None" using None by (simp add: fetched_def)
    show ?thesis
      using out lines line None unfolding step rs
      by (intro exI [of _ "line # out"])
         (auto simp add: after_request_def map_filter_simps f)
  next
    case (Some doc)
    then have "required_present doc" using ok by (simp add: ok_response_def)
    then obtain ob where ob: "reformat_obs i doc = Inr ob"
      using reformat_obs_ok [of doc i] by blast
    let ?w1 = "after_request (detail_url i) (rs' @ rest) w"
    have step: "retrieve_data_loop (i # ids) acc w = retrieve_data_loop ids (acc @ [ob]) ?w1"
      by (rule detail_good [OF resp Some ob])
    have "responses ?w1 = rs' @ rest" by (simp add: after_request_def)
    from Cons.IH [OF rs(2) this oks, of "acc @ [ob]"]
    obtain out where out: "retrieve_data_loop ids (acc @ [ob]) ?w1
            = (Inr ((acc @ [ob]) @ List.map_filter fetched (zip ids rs')),
               ?w1\<lparr>responses := rest, requests := requests ?w1 @ map detail_url ids,
                 stdout := stdout ?w1 @ out\<rparr>)"
      and lines: "\<forall>(i, r) \<in> set (zip ids rs'). detail_doc r = None \<longrightarrow> skip_lines i \<inter> set out \<noteq> {}"
      by blast
    have f: "fetched (i, r) = Some ob" using Some ob by (simp add: fetched_def)
    show ?thesis
      using out lines Some unfolding step rs
      by (intro exI [of _ out])
         (auto simp add: after_request_def map_filter_simps f)
  qed
qed


lemma file_from_id_inj: "file_from_id a = file_from_id b \<longleftrightarrow> a = b"
  by (simp add: file_from_id_def)

lemma read_hugo_markdown_cong:
  "read_fails w' = read_fails w \<Longrightarrow>
   map_of (files w') (file_from_id i) = map_of (files w) (file_from_id i) \<Longrightarrow>
   read_hugo_markdown i w' = read_hugo_markdown i w"
  by (simp add: read_hugo_markdown_def open_read_def)

lemma write_markdown_frame:
  "read_fails (write_markdown i fm c w) = read_fails w
   \<and> write_result_of (write_markdown i fm c w) = write_result_of w
   \<and> requests (write_markdown i fm c w) = requests w
   \<and> responses (write_markdown i fm c w) = responses w
   \<and> (\<exists>out. stdout (write_markdown i fm c w) = stdout w @ out)
   \<and> (\<forall>p. p \<noteq> file_from_id i \<longrightarrow> map_of (files (write_markdown i fm c w)) p = map_of (files w) p)"
  by (cases "write_result_of w (file_from_id i)")
     (simp_all add: write_markdown_def open_write_def print_line_def update_conv')

lemma reconcile_step_frame:
  "read_fails (snd (reconcile_step saved d w)) = read_fails w
   \<and> write_result_of (snd (reconcile_step saved d w)) = write_result_of w
   \<and> requests (snd (reconcile_step saved d w)) = requests w
   \<and> responses (snd (reconcile_step saved d w)) = responses w
   \<and> (\<exists>out. stdout (snd (reconcile_step saved d w)) = stdout w @ out)
   \<and> (\<forall>p. p \<noteq> file_from_id (obs_id d) \<longrightarrow>
         map_of (files (snd (reconcile_step saved d w))) p = map_of (files w) p)"
proof -
  have pl: "\<And>l. read_fails (print_line l w) = read_fails w
        \<and> write_result_of (print_line l w) = write_result_of w
        \<and> requests (print_line l w) = requests w \<and> responses (print_line l w) = responses w
        \<and> stdout (print_line l w) = stdout w @ [l] \<and> files (print_line l w) = files w"
    by (simp add: print_line_def)
  have wr: "\<And>l. read_fails (write_markdown (obs_id d) (metadata d) (content d) (print_line l w)) = read_fails w
        \<and> write_result_of (write_markdown (obs_id d) (metadata d) (content d) (print_line l w)) = write_result_of w
        \<and> requests (write_markdown (obs_id d) (metadata d) (content d) (print_line l w)) = requests w
        \<and> responses (write_markdown (obs_id d) (metadata d) (content d) (print_line l w)) = responses w
        \<and> (\<exists>out. stdout (write_markdown (obs_id d) (metadata d) (content d) (print_line l w)) = stdout w @ out)
        \<and> (\<forall>p. p \<noteq> file_from_id (obs_id d) \<longrightarrow>
              map_of (files (write_markdown (obs_id d) (metadata d) (content d) (print_line l w))) p
                = map_of (files w) p)"
  proof -
    fix l
    from write_markdown_frame [of "obs_id d" "metadata d" "content d" "print_line l w"]
    show "?thesis l" using pl [of l] by auto
  qed
  show ?thesis
    unfolding reconcile_step_def Let_def
    using wr pl by (auto split: option.splits simp del: split_paired_All)
qed


lemma reconcile_step_ok:
  "(obs_id d \<in> set saved \<longrightarrow> read_hugo_markdown (obs_id d) w \<noteq> None) \<Longrightarrow>
     fst (reconcile_step saved d w) = Inr ()"
  by (auto simp add: reconcile_step_def Let_def split: option.splits)

lemma reconcile_Cons:
  "reconcile saved (d # ds) w =
     (if fst (reconcile_step saved d w) = Inr () then reconcile saved ds (snd (reconcile_step saved d w))
      else reconcile_step saved d w)"
  by (cases "reconcile_step saved d w") (auto split: sum.splits)

lemma reconcile_frame:
  "read_fails (snd (reconcile saved ds w)) = read_fails w
   \<and> write_result_of (snd (reconcile saved ds w)) = write_result_of w
   \<and> requests (snd (reconcile saved ds w)) = requests w
   \<and> responses (snd (reconcile saved ds w)) = responses w
   \<and> (\<exists>out. stdout (snd (reconcile saved ds w)) = stdout w @ out)
   \<and> (\<forall>p. p \<notin> file_from_id ` obs_id ` set ds \<longrightarrow>
         map_of (files (snd (reconcile saved ds w))) p = map_of (files w) p)"
proof (induction ds arbitrary: w)
  case Nil
  show ?case by simp
next
  case (Cons d ds)
  let ?w1 = "snd (reconcile_step saved d w)"
  note step = reconcile_step_frame [of saved d w]
  show ?case
  proof (cases "fst (reconcile_step saved d w) = Inr ()")
    case True
    then have r: "reconcile saved (d # ds) w = reconcile saved ds ?w1"
      by (simp add: reconcile_Cons del: reconcile.simps)
    from step obtain out1 where o1: "stdout ?w1 = stdout w @ out1" by blast
    from Cons.IH [of ?w1] obtain out2 where o2: "stdout (snd (reconcile saved ds ?w1)) = stdout ?w1 @ out2"
      by blast
    have "\<exists>out. stdout (snd (reconcile saved ds ?w1)) = stdout w @ out"
      using o1 o2 by simp
    then show ?thesis
      unfolding r using Cons.IH [of ?w1] step by auto
  next
    case False
    then have r: "reconcile saved (d # ds) w = reconcile_step saved d w"
      by (simp add: reconcile_Cons del: reconcile.simps)
    show ?thesis unfolding r using step by auto
  qed
qed

lemma reconcile_completes:
  assumes "distinct (map obs_id ds)"
    and "\<forall>d \<in> set ds. obs_id d \<in> set saved \<longrightarrow> read_hugo_markdown (obs_id d) w \<noteq> None"
  shows "fst (reconcile saved ds w) = Inr ()"
  using assms
proof (induction ds arbitrary: w)
  case Nil
  show ?case by simp
next
  case (Cons d ds)
  let ?w1 = "snd (reconcile_step saved d w)"
  note step = reconcile_step_frame [of saved d w]
  have ok: "fst (reconcile_step saved d w) = Inr ()"
    using Cons.prems(2) by (intro reconcile_step_ok) simp
  have "read_hugo_markdown (obs_id d') ?w1 = read_hugo_markdown (obs_id d') w" if "d' \<in> set ds" for d'
  proof -
    have "obs_id d' \<in> obs_id ` set ds" using that by (rule imageI)
    moreover have "obs_id d \<notin> obs_id ` set ds" using Cons.prems(1) by simp
    ultimately have "obs_id d' \<noteq> obs_id d" by metis
    then have "file_from_id (obs_id d') \<noteq> file_from_id (obs_id d)" by (simp add: file_from_id_inj)
    then show ?thesis using step by (intro read_hugo_markdown_cong) auto
  qed
  then have "\<forall>d' \<in> set ds. obs_id d' \<in> set saved \<longrightarrow> read_hugo_markdown (obs_id d') ?w1 \<noteq> None"
    using Cons.prems(2) by simp
  from Cons.IH [OF _ this] Cons.prems(1) show ?case
    using ok by (simp add: reconcile_Cons del: reconcile.simps)
qed

end
